theory Spec2Isabelle
  imports Main "HOL-Library.Sublist" "HOL-Library.Word"
begin

section \<open>The strings package, as far as the library calls it\<close>

text \<open>
  Go strings are byte sequences; they are modelled as \<open>string\<close> (a list of \<open>char\<close>,
  one per byte). \<open>Index s substr\<close> is the byte offset of the first occurrence of
  \<open>substr\<close> in \<open>s\<close>, or \<open>-1\<close> when there is none; the empty string occurs at
  offset 0 of every string. \<open>Contains s substr\<close> is \<open>Index s substr >= 0\<close>.
\<close>

fun Index :: "string \<Rightarrow> string \<Rightarrow> int" where
  "Index [] substr = (if substr = [] then 0 else -1)"
| "Index (c # cs) substr =
     (if prefix substr (c # cs) then 0
      else (let i = Index cs substr in if i < 0 then -1 else i + 1))"

definition Contains :: "string \<Rightarrow> string \<Rightarrow> bool" where
  "Contains s substr = (0 \<le> Index s substr)"

lemma Index_bounds:
  "0 \<le> Index s substr \<Longrightarrow> nat (Index s substr) + length substr \<le> length s"
proof (induction s)
  case Nil
  then show ?case by (simp split: if_splits)
next
  case (Cons c cs)
  show ?case
  proof (cases "prefix substr (c # cs)")
    case True
    then show ?thesis using prefix_length_le [OF True] by simp
  next
    case False
    with Cons.prems have "0 \<le> Index cs substr"
      by (simp add: Let_def split: if_splits)
    with False Cons.IH show ?thesis by (simp add: Let_def nat_add_distrib)
  qed
qed

text \<open>
  \<open>Split s sep\<close> cuts \<open>s\<close> at every occurrence of \<open>sep\<close>, found from the left with
  \<open>Index\<close>, and always returns at least one piece. With an empty separator Go cuts
  after every UTF-8 sequence, which for ASCII text is after every byte. \<open>Join\<close> puts
  \<open>sep\<close> between the elements.
\<close>

function Split :: "string \<Rightarrow> string \<Rightarrow> string list" where
  "Split s sep =
     (if sep = [] then map (\<lambda>c. [c]) s
      else (let m = Index s sep
            in if m < 0 then [s]
               else take (nat m) s # Split (drop (nat m + length sep) s) sep))"
  by pat_completeness auto
termination
proof (relation "measure (\<lambda>(s, sep). length s)")
  show "wf (measure (\<lambda>(s :: string, sep :: string). length s))" by simp
next
  fix s sep :: string and m :: int
  assume "sep \<noteq> []" "m = Index s sep" "\<not> m < 0"
  then have "nat m + length sep \<le> length s" "0 < length sep"
    using Index_bounds [of s sep] by auto
  then have "length (drop (nat m + length sep) s) < length s"
    unfolding length_drop by linarith
  then show "((drop (nat m + length sep) s, sep), (s, sep)) \<in> measure (\<lambda>(s, sep). length s)"
    by simp
qed

fun Join :: "string list \<Rightarrow> string \<Rightarrow> string" where
  "Join [] sep = []"
| "Join [x] sep = x"
| "Join (x # y # ys) sep = x @ sep @ Join (y # ys) sep"

section \<open>The session: \<open>SSHLib\<close>\<close>

text \<open>
  The error values declared at the top of \<open>sshlib.go\<close>, and the error that
  \<open>regexp.Compile\<close> returns for a pattern it rejects.
\<close>

datatype err =
    ErrNoConnection
  | ErrNoMatch
  | ErrLostConnection
  | ErrNoPrompt
  | ErrInvalidAgent
  | ErrRegexpSyntax string

text \<open>Run-time panics of Go that the library can reach.\<close>

datatype fault = NilDereference | SliceOutOfRange | IndexOutOfRange

text \<open>
  The fields of \<open>SSHLib\<close> that the read and write paths use, together with the part of
  the environment they observe.
  \<^item> \<open>Buffer\<close>: the field of the same name.
  \<^item> \<open>PromptReg\<close>: the field of the same name.
  \<^item> \<open>Stdin\<close>: \<open>None\<close> is the nil interface value the field holds before \<open>Open\<close>;
    \<open>Some w\<close> is an open pipe to which the bytes \<open>w\<close> have been written so far.
  \<^item> \<open>Data\<close>: what the successive \<open>select\<close> statements of \<open>GetData\<close> will find on the
    channel: \<open>Some d\<close> when the reader task is ready to hand over the chunk \<open>d\<close>,
    \<open>None\<close> when nothing is ready. Once the list is exhausted nothing is ever ready.
  \<^item> \<open>now\<close>: the clock that \<open>getTimestamp\<close> reads, in milliseconds. \<open>time.Sleep\<close>
    advances it; receiving a chunk is taken to cost no time.
  \<open>Host\<close>, \<open>Port\<close>, \<open>User\<close>, \<open>Passwd\<close>, \<open>Conn\<close>, \<open>Stdout\<close> and \<open>timeout\<close> only
  reach the ssh package and are left out.
\<close>

record SSHLib =
  Buffer :: string
  PromptReg :: string
  Stdin :: "string option"
  Data :: "string option list"
  now :: int

definition getTimestamp :: "SSHLib \<Rightarrow> int" where
  "getTimestamp s = now s"

definition GetData :: "SSHLib \<Rightarrow> SSHLib" where
  "GetData s =
     (case Data s of
        Some d # rest \<Rightarrow> s\<lparr>Buffer := Buffer s @ d, Data := rest\<rparr>
      | None # rest \<Rightarrow> s\<lparr>Data := rest, now := now s + 250\<rparr>
      | [] \<Rightarrow> s\<lparr>now := now s + 250\<rparr>)"

text \<open>
  \<open>timeout\<close> is a Go \<open>int\<close>, 64 bits wide on the usual platforms;
  \<open>int64(timeout) * 1000\<close> wraps around.
\<close>

definition timeoutMs :: "64 word \<Rightarrow> int" where
  "timeoutMs timeout = sint (timeout * 1000)"

text \<open>
  What is left of the deadline and of the channel: every pass of a poll loop that calls
  \<open>GetData\<close> makes it smaller.
\<close>

definition budget :: "int \<Rightarrow> int \<Rightarrow> SSHLib \<Rightarrow> nat" where
  "budget startTime tms s = length (Data s) + nat (startTime + tms - now s)"

lemma budget_GetData:
  "now s - startTime < tms \<Longrightarrow> budget startTime tms (GetData s) < budget startTime tms s"
  by (auto simp: budget_def GetData_def split: list.splits option.splits)

subsection \<open>\<open>ReadUntil\<close>\<close>

text \<open>
  The \<open>for\<close> loop of \<open>ReadUntil\<close>. It returns \<open>returnData\<close>, \<open>foundMatch\<close> and the
  session as the loop leaves them.
\<close>

function ReadUntil_loop :: "string \<Rightarrow> int \<Rightarrow> int \<Rightarrow> SSHLib \<Rightarrow> (string \<times> bool) \<times> SSHLib" where
  "ReadUntil_loop str startTime tms s =
     (if getTimestamp s - startTime < tms then
        (if Contains (Buffer s) str then
           (let endRead = Index (Buffer s) str in
              ((take (nat (endRead + int (length str))) (Buffer s), True),
               s\<lparr>Buffer := drop (nat endRead) (Buffer s)\<rparr>))
         else ReadUntil_loop str startTime tms (GetData s))
      else (([], False), s))"
  by pat_completeness auto
termination
  by (relation "measure (\<lambda>(str, startTime, tms, s). budget startTime tms s)")
     (auto simp: getTimestamp_def intro: budget_GetData)

text \<open>
  The tail shared by the three read calls: an empty \<open>returnData\<close> is replaced by the
  whole buffer, which is cleared; \<open>ErrNoMatch\<close> is returned unless a match was found.
\<close>

definition finish :: "(string \<times> bool) \<times> SSHLib \<Rightarrow> (string \<times> err option) \<times> SSHLib" where
  "finish r =
     (case r of ((returnData, foundMatch), s) \<Rightarrow>
        (let (returnData', s') =
               (if returnData = [] then (Buffer s, s\<lparr>Buffer := []\<rparr>) else (returnData, s))
         in if \<not> foundMatch then ((returnData', Some ErrNoMatch), s')
            else ((returnData', None), s')))"

definition ReadUntil :: "string \<Rightarrow> 64 word \<Rightarrow> SSHLib \<Rightarrow> (string \<times> err option) \<times> SSHLib" where
  "ReadUntil str timeout s =
     (let startTime = getTimestamp s
      in finish (ReadUntil_loop str startTime (timeoutMs timeout) s))"

section \<open>The regexp package, as far as the library calls it\<close>

text \<open>
  The package is not part of the repository, so the development is parametric in it:
  \<open>Compile\<close> returns the compiled expression, or \<open>None\<close> where Go returns a nil
  pointer and an error; \<open>FindStringIndex re s\<close> returns the start and end offsets of
  the leftmost match of \<open>re\<close> in \<open>s\<close>, or \<open>None\<close> where Go returns a nil slice.
  \<open>MatchString\<close> reports whether there is a match at all.
\<close>

record 're regexp =
  Compile :: "string \<Rightarrow> 're option"
  FindStringIndex :: "'re \<Rightarrow> string \<Rightarrow> (nat \<times> nat) option"

definition MatchString :: "'re regexp \<Rightarrow> 're \<Rightarrow> string \<Rightarrow> bool" where
  "MatchString E re s = (FindStringIndex E re s \<noteq> None)"

text \<open>
  An instance for evaluating concrete calls. It is Go's package on patterns without
  metacharacters, which match themselves, leftmost first; it rejects every other
  pattern, as Go rejects \<open>(\<close> for its missing closing parenthesis. Patterns with
  metacharacters that Go accepts are outside this instance and are not evaluated below.
\<close>

definition metachars :: "char list" where
  "metachars = CHR 0x5C # ''.+*?()|[]{}^$''"

definition literal_regexp :: "string regexp" where
  "literal_regexp =
     \<lparr>Compile = (\<lambda>p. if list_ex (\<lambda>c. c \<in> set metachars) p then None else Some p),
      FindStringIndex = (\<lambda>re s.
        if Contains s re then Some (nat (Index s re), nat (Index s re) + length re)
        else None)\<rparr>"

subsection \<open>\<open>ReadUntilRegex\<close>\<close>

text \<open>
  The two slice expressions \<open>s.Buffer[:endRead]\<close> and \<open>s.Buffer[endRead:]\<close>; Go panics
  when \<open>endRead\<close> exceeds the length of the buffer.
\<close>

definition cut :: "nat \<Rightarrow> SSHLib \<Rightarrow> fault + ((string \<times> bool) \<times> SSHLib)" where
  "cut endRead s =
     (if endRead \<le> length (Buffer s)
      then Inr ((take endRead (Buffer s), True), s\<lparr>Buffer := drop endRead (Buffer s)\<rparr>)
      else Inl SliceOutOfRange)"

function ReadUntilRegex_loop ::
  "'re regexp \<Rightarrow> 're \<Rightarrow> int \<Rightarrow> int \<Rightarrow> SSHLib \<Rightarrow> fault + ((string \<times> bool) \<times> SSHLib)" where
  "ReadUntilRegex_loop E cmpRe startTime tms s =
     (if getTimestamp s - startTime < tms then
        (if MatchString E cmpRe (Buffer s) then
           (case FindStringIndex E cmpRe (Buffer s) of
              None \<Rightarrow> Inl IndexOutOfRange
            | Some (start, endRead) \<Rightarrow> cut endRead s)
         else ReadUntilRegex_loop E cmpRe startTime tms (GetData s))
      else Inr (([], False), s))"
  by pat_completeness auto
termination
  by (relation "measure (\<lambda>(E, cmpRe, startTime, tms, s). budget startTime tms s)")
     (auto simp: getTimestamp_def intro: budget_GetData)

definition ReadUntilRegex ::
  "'re regexp \<Rightarrow> string \<Rightarrow> 64 word \<Rightarrow> SSHLib \<Rightarrow> fault + ((string \<times> err option) \<times> SSHLib)" where
  "ReadUntilRegex E regexStr timeout s =
     (let startTime = getTimestamp s
      in case Compile E regexStr of
           None \<Rightarrow> Inr (([], Some (ErrRegexpSyntax regexStr)), s)
         | Some cmpRe \<Rightarrow>
             (case ReadUntilRegex_loop E cmpRe startTime (timeoutMs timeout) s of
                Inl f \<Rightarrow> Inl f
              | Inr r \<Rightarrow> Inr (finish r)))"

subsection \<open>\<open>ReadUntilRegexList\<close>\<close>

text \<open>
  The inner \<open>for\<close> loop over \<open>cmpReList\<close>. An entry is \<open>None\<close> where \<open>regexp.Compile\<close>
  returned a nil pointer; calling \<open>MatchString\<close> on it panics. The loop has no
  \<open>break\<close>: after a match the remaining expressions are tried on what is left of the
  buffer.
\<close>

fun scan ::
  "'re regexp \<Rightarrow> 're option list \<Rightarrow> (string \<times> bool) \<times> SSHLib \<Rightarrow> fault + ((string \<times> bool) \<times> SSHLib)" where
  "scan E [] r = Inr r"
| "scan E (None # rest) r = Inl NilDereference"
| "scan E (Some cmpRe # rest) (rf, s) =
     (if MatchString E cmpRe (Buffer s) then
        (case FindStringIndex E cmpRe (Buffer s) of
           None \<Rightarrow> Inl IndexOutOfRange
         | Some (start, endRead) \<Rightarrow>
             (case cut endRead s of Inl f \<Rightarrow> Inl f | Inr r' \<Rightarrow> scan E rest r'))
      else scan E rest (rf, s))"

lemma scan_env:
  "scan E cmpReList (rf, s) = Inr (rf', s') \<Longrightarrow> Data s' = Data s \<and> now s' = now s"
proof (induction cmpReList arbitrary: rf s)
  case Nil
  then show ?case by simp
next
  case (Cons c cs)
  show ?case
  proof (cases c)
    case None
    with Cons.prems show ?thesis by simp
  next
    case (Some re)
    show ?thesis
    proof (cases "MatchString E re (Buffer s)")
      case False
      with Some Cons.prems have "scan E cs (rf, s) = Inr (rf', s')" by simp
      then show ?thesis by (rule Cons.IH)
    next
      case True
      with Some Cons.prems obtain start endRead rf1 s1 where
        c: "cut endRead s = Inr (rf1, s1)" and r: "scan E cs (rf1, s1) = Inr (rf', s')"
        by (auto split: option.splits sum.splits)
      from c have "Data s1 = Data s \<and> now s1 = now s"
        by (auto simp: cut_def split: if_splits)
      with Cons.IH [OF r] show ?thesis by simp
    qed
  qed
qed

lemma scan_budget:
  assumes "now s - startTime < tms" and "scan E cmpReList (rf, s) = Inr (rf', s')"
  shows "budget startTime tms (GetData s') < budget startTime tms s"
proof -
  from assms(2) have "Data s' = Data s \<and> now s' = now s" by (rule scan_env)
  then have "budget startTime tms (GetData s') = budget startTime tms (GetData s)"
    by (simp add: budget_def GetData_def split: list.splits option.splits)
  with assms(1) show ?thesis by (simp add: budget_GetData)
qed

text \<open>
  The outer \<open>for\<close> loop. On entry to a pass \<open>foundMatch\<close> is false and \<open>returnData\<close>
  is still empty; a pass that sets \<open>foundMatch\<close> is the last one, because the loop
  condition then fails.
\<close>

function ReadUntilRegexList_loop ::
  "'re regexp \<Rightarrow> 're option list \<Rightarrow> int \<Rightarrow> int \<Rightarrow> SSHLib \<Rightarrow> fault + ((string \<times> bool) \<times> SSHLib)" where
  "ReadUntilRegexList_loop E cmpReList startTime tms s =
     (if getTimestamp s - startTime < tms then
        (case scan E cmpReList (([], False), s) of
           Inl f \<Rightarrow> Inl f
         | Inr ((returnData, foundMatch), s') \<Rightarrow>
             if foundMatch = False
             then ReadUntilRegexList_loop E cmpReList startTime tms (GetData s')
             else Inr ((returnData, foundMatch), s'))
      else Inr (([], False), s))"
  by pat_completeness auto
termination
  by (relation "measure (\<lambda>(E, cmpReList, startTime, tms, s). budget startTime tms s)")
     (auto simp: getTimestamp_def intro: scan_budget)

definition ReadUntilRegexList ::
  "'re regexp \<Rightarrow> string list \<Rightarrow> 64 word \<Rightarrow> SSHLib \<Rightarrow> fault + ((string \<times> err option) \<times> SSHLib)" where
  "ReadUntilRegexList E regexList timeout s =
     (let startTime = getTimestamp s;
          cmpReList = map (Compile E) regexList
      in case ReadUntilRegexList_loop E cmpReList startTime (timeoutMs timeout) s of
           Inl f \<Rightarrow> Inl f
         | Inr r \<Rightarrow> Inr (finish r))"

subsection \<open>\<open>Write\<close> and \<open>Open\<close>\<close>

text \<open>
  \<open>Write\<close> sends the string and a newline to \<open>Stdin\<close> and ignores the result of the
  write; on a session that was never opened \<open>Stdin\<close> is nil and the call panics.
\<close>

definition Write :: "string \<Rightarrow> SSHLib \<Rightarrow> fault + SSHLib" where
  "Write str s =
     (case Stdin s of
        None \<Rightarrow> Inl NilDereference
      | Some w \<Rightarrow> Inr (s\<lparr>Stdin := Some (w @ str @ ''\<newline>'')\<rparr>))"

text \<open>
  \<open>Open\<close> dials, opens a session with its pipes, starts the reader task and waits three
  seconds for the prompt. \<open>dial\<close> is the environment's answer: whether \<open>ssh.Dial\<close> and
  \<open>NewSession\<close> both succeed.
\<close>

definition Open :: "'re regexp \<Rightarrow> bool \<Rightarrow> SSHLib \<Rightarrow> fault + (err option \<times> SSHLib)" where
  "Open E dial s =
     (if \<not> dial then Inr (Some ErrNoConnection, s)
      else (let s1 = s\<lparr>Stdin := Some []\<rparr>
            in case ReadUntilRegex E (PromptReg s1) 3 s1 of
                 Inl f \<Rightarrow> Inl f
               | Inr ((output, err), s2) \<Rightarrow>
                   if err \<noteq> None then Inr (Some ErrNoPrompt, s2) else Inr (None, s2)))"

section \<open>The agent: \<open>SSHAgent\<close>\<close>

text \<open>
  The fields of \<open>SSHAgent\<close> that its methods use after \<open>Create\<close>; the connection
  parameters are kept by \<open>Conn\<close> as well and are left out.
\<close>

record SSHAgent =
  PromptRegex :: string
  Timeout :: "64 word"
  Conn :: SSHLib
  Connected :: bool

definition Connect :: "'re regexp \<Rightarrow> bool \<Rightarrow> SSHAgent \<Rightarrow> fault + (err option \<times> SSHAgent)" where
  "Connect E dial a =
     (if Connected a = False then
        (case Open E dial (Conn a) of
           Inl f \<Rightarrow> Inl f
         | Inr (err, c) \<Rightarrow>
             if err \<noteq> None then Inr (err, a\<lparr>Conn := c\<rparr>)
             else Inr (None, a\<lparr>Conn := c, Connected := True\<rparr>))
      else Inr (None, a))"

definition SendCommandNoWait ::
  "'re regexp \<Rightarrow> bool \<Rightarrow> string \<Rightarrow> SSHAgent \<Rightarrow> fault + (err option \<times> SSHAgent)" where
  "SendCommandNoWait E dial command a =
     (case Connect E dial a of
        Inl f \<Rightarrow> Inl f
      | Inr (err, a1) \<Rightarrow>
          if err \<noteq> None then Inr (Some ErrLostConnection, a1)
          else (case Write command (Conn a1) of
                  Inl f \<Rightarrow> Inl f
                | Inr c \<Rightarrow> Inr (None, a1\<lparr>Conn := c\<rparr>)))"

definition SendCommand ::
  "'re regexp \<Rightarrow> bool \<Rightarrow> string \<Rightarrow> SSHAgent \<Rightarrow> fault + ((string \<times> err option) \<times> SSHAgent)" where
  "SendCommand E dial command a =
     (case SendCommandNoWait E dial command a of
        Inl f \<Rightarrow> Inl f
      | Inr (err, a1) \<Rightarrow>
          if err \<noteq> None then Inr (([], Some ErrLostConnection), a1)
          else (case ReadUntilRegex E (PromptRegex a1) (Timeout a1) (Conn a1) of
                  Inl f \<Rightarrow> Inl f
                | Inr ((output, _), c) \<Rightarrow> Inr ((output, None), a1\<lparr>Conn := c\<rparr>)))"

definition SendCommandStripCommand ::
  "'re regexp \<Rightarrow> bool \<Rightarrow> string \<Rightarrow> SSHAgent \<Rightarrow> fault + ((string \<times> err option) \<times> SSHAgent)" where
  "SendCommandStripCommand E dial command a =
     (case SendCommand E dial command a of
        Inl f \<Rightarrow> Inl f
      | Inr ((output, err), a1) \<Rightarrow>
          if err \<noteq> None then Inr (([], err), a1)
          else (case Split output ''\<newline>'' of
                  [] \<Rightarrow> Inl IndexOutOfRange
                | first # rest \<Rightarrow>
                    if Contains first command then Inr ((Join rest ''\<newline>'', None), a1)
                    else Inr ((output, None), a1)))"

definition SendCommandWaitForList ::
  "'re regexp \<Rightarrow> bool \<Rightarrow> string \<Rightarrow> string list \<Rightarrow> SSHAgent
     \<Rightarrow> fault + ((string \<times> err option) \<times> SSHAgent)" where
  "SendCommandWaitForList E dial command regexList a =
     (case SendCommandNoWait E dial command a of
        Inl f \<Rightarrow> Inl f
      | Inr (err, a1) \<Rightarrow>
          if err \<noteq> None then Inr (([], err), a1)
          else (let regexList' = regexList @ [PromptRegex a1]
                in case ReadUntilRegexList E regexList' (Timeout a1) (Conn a1) of
                     Inl f \<Rightarrow> Inl f
                   | Inr ((output, err), c) \<Rightarrow> Inr ((output, err), a1\<lparr>Conn := c\<rparr>)))"

section \<open>Lines of output, as the specification words them\<close>

text \<open>
  The specification of \<open>SendCommandStripCommand\<close> speaks of the first line of the
  output and of the output with its first line removed, lines being delimited by the
  newline character. These two definitions follow those words, not the code: the first
  line is everything before the first newline, and removing it removes that newline too.
\<close>

definition first_line :: "string \<Rightarrow> string" where
  "first_line text = takeWhile (\<lambda>c. c \<noteq> CHR 0x0A) text"

definition drop_first_line :: "string \<Rightarrow> string" where
  "drop_first_line text = drop 1 (dropWhile (\<lambda>c. c \<noteq> CHR 0x0A) text)"

section \<open>What arrives during a call\<close>

text \<open>
  \<open>received evs\<close> is the text of the chunks among the channel events \<open>evs\<close>, in their
  order. \<open>arrived s s1\<close> says that \<open>s1\<close> has taken some of the events waiting in \<open>s\<close>
  off the channel, and that its buffer is the buffer of \<open>s\<close> followed by their text.
\<close>

definition received :: "string option list \<Rightarrow> string" where
  "received evs = concat (map (\<lambda>ev. case ev of None \<Rightarrow> [] | Some d \<Rightarrow> d) evs)"

definition arrived :: "SSHLib \<Rightarrow> SSHLib \<Rightarrow> bool" where
  "arrived s s1 =
     (\<exists>k. Data s1 = drop k (Data s) \<and> Buffer s1 = Buffer s @ received (take k (Data s)))"

section \<open>Concrete sessions\<close>

text \<open>
  A session for concrete evaluation: buffer \<open>b\<close>, an open pipe with nothing written,
  the channel schedule \<open>d\<close>, and the clock at 0.
\<close>

definition session :: "string \<Rightarrow> string option list \<Rightarrow> SSHLib" where
  "session b d = \<lparr>Buffer = b, PromptReg = ''$ '', Stdin = Some [], Data = d, now = 0\<rparr>"

text \<open>
  A connected agent for concrete evaluation, with prompt pattern \<open>#\<close> followed by a space
  and a timeout of one second.
\<close>

definition agent :: "SSHLib \<Rightarrow> SSHAgent" where
  "agent c = \<lparr>PromptRegex = ''# '', Timeout = 1, Conn = c, Connected = True\<rparr>"

section \<open>Properties\<close>

text \<open>
  The poll loops are unfolded by hand from here on: their defining equations mention
  themselves.
\<close>

declare ReadUntil_loop.simps [simp del]
declare ReadUntilRegex_loop.simps [simp del]
declare ReadUntilRegexList_loop.simps [simp del]
declare Split.simps [simp del]

text \<open>The definitions that a concrete evaluation unfolds.\<close>

lemmas eval_defs = session_def agent_def getTimestamp_def timeoutMs_def Contains_def GetData_def
  literal_regexp_def metachars_def MatchString_def cut_def finish_def

subsection \<open>A match on the first pass\<close>

text \<open>
  When the deadline has not passed and the buffer already holds a match, the loops of
  \<open>ReadUntil\<close> and \<open>ReadUntilRegex\<close> return on their first pass.
\<close>

lemma ReadUntil_loop_match:
  assumes "getTimestamp s - startTime < tms" and "Contains (Buffer s) str"
  shows "ReadUntil_loop str startTime tms s =
           ((take (nat (Index (Buffer s) str + int (length str))) (Buffer s), True),
            s\<lparr>Buffer := drop (nat (Index (Buffer s) str)) (Buffer s)\<rparr>)"
  using assms by (simp add: ReadUntil_loop.simps [of str startTime tms s] Let_def)

lemma ReadUntilRegex_loop_match:
  assumes "getTimestamp s - startTime < tms"
    and "FindStringIndex E cmpRe (Buffer s) = Some (start, endRead)"
  shows "ReadUntilRegex_loop E cmpRe startTime tms s = cut endRead s"
  using assms
  by (simp add: ReadUntilRegex_loop.simps [of E cmpRe startTime tms s] MatchString_def)

subsection \<open>\<open>ReadUntil\<close> on a match\<close>

text \<open>
  With a non-empty target in the buffer and a deadline still ahead, \<open>ReadUntil\<close>
  returns the buffer up to the end of the first occurrence and keeps the buffer from
  the start of that occurrence on.
\<close>

lemma ReadUntil_on_match:
  assumes "0 < timeoutMs timeout" and "Contains (Buffer s) str" and "str \<noteq> []"
  shows "ReadUntil str timeout s =
           ((take (nat (Index (Buffer s) str) + length str) (Buffer s), None),
            s\<lparr>Buffer := drop (nat (Index (Buffer s) str)) (Buffer s)\<rparr>)"
proof -
  let ?i = "Index (Buffer s) str"
  from assms(2) have nn: "0 \<le> ?i" by (simp add: Contains_def)
  then have n: "nat (?i + int (length str)) = nat ?i + length str"
    by (simp add: nat_add_distrib)
  define p where "p = take (nat ?i + length str) (Buffer s)"
  from Index_bounds [OF nn] assms(3) have ne: "p \<noteq> []"
    by (auto simp: p_def)
  from assms(1) have "getTimestamp s - getTimestamp s < timeoutMs timeout" by simp
  from ReadUntil_loop_match [OF this assms(2)] n
  have "ReadUntil_loop str (getTimestamp s) (timeoutMs timeout) s =
          ((p, True), s\<lparr>Buffer := drop (nat ?i) (Buffer s)\<rparr>)"
    by (simp add: p_def)
  with ne have "ReadUntil str timeout s = ((p, None), s\<lparr>Buffer := drop (nat ?i) (Buffer s)\<rparr>)"
    by (simp add: ReadUntil_def finish_def)
  then show ?thesis by (simp add: p_def)
qed

text \<open>
  C1. With \<open>abc\<close> in the buffer, \<open>ReadUntil\<close> for the target \<open>b\<close> returns \<open>ab\<close>
  and leaves \<open>bc\<close>: the remainder starts at the match and not after it, so the returned
  prefix and the remainder do not add up to the buffer before the call.
\<close>

theorem ReadUntil_remainder_repeats_target:
  "ReadUntil ''b'' 1 (session ''abc'' []) = ((''ab'', None), session ''bc'' [])
   \<and> ''ab'' @ ''bc'' \<noteq> ''abc''"
  by (simp add: ReadUntil_def ReadUntil_loop.simps eval_defs)

subsection \<open>\<open>ReadUntilRegex\<close> on a match\<close>

text \<open>
  C5. When the pattern compiles, its first match in the buffer ends at an offset
  \<open>matchEnd\<close> that is positive and within the buffer, and the deadline has not passed
  at the first check, \<open>ReadUntilRegex\<close> returns the buffer up to \<open>matchEnd\<close> without an
  error and leaves the buffer from \<open>matchEnd\<close> on; the two parts add up to the buffer
  before the call.
\<close>

theorem ReadUntilRegex_match:
  assumes "Compile E regexStr = Some cmpRe"
    and "FindStringIndex E cmpRe (Buffer s) = Some (start, matchEnd)"
    and "0 < matchEnd" and "matchEnd \<le> length (Buffer s)"
    and "0 < timeoutMs timeout"
  shows "ReadUntilRegex E regexStr timeout s
           = Inr ((take matchEnd (Buffer s), None), s\<lparr>Buffer := drop matchEnd (Buffer s)\<rparr>)
         \<and> take matchEnd (Buffer s) @ drop matchEnd (Buffer s) = Buffer s"
proof -
  from assms(5) have live: "getTimestamp s - getTimestamp s < timeoutMs timeout" by simp
  from assms(3,4) have ne: "take matchEnd (Buffer s) \<noteq> []" by auto
  from ReadUntilRegex_loop_match [OF live assms(2)] assms(4)
  have "ReadUntilRegex_loop E cmpRe (getTimestamp s) (timeoutMs timeout) s
          = Inr ((take matchEnd (Buffer s), True), s\<lparr>Buffer := drop matchEnd (Buffer s)\<rparr>)"
    by (simp add: cut_def)
  with assms(1) ne show ?thesis
    by (simp add: ReadUntilRegex_def finish_def)
qed

theorem ReadUntilRegex_match_witness:
  "Compile literal_regexp ''b'' = Some ''b''
   \<and> FindStringIndex literal_regexp ''b'' (Buffer (session ''abc'' [])) = Some (1, 2)
   \<and> (0 :: nat) < 2 \<and> 2 \<le> length (Buffer (session ''abc'' [])) \<and> 0 < timeoutMs 1
   \<and> ReadUntilRegex literal_regexp ''b'' 1 (session ''abc'' [])
       = Inr ((''ab'', None), session ''c'' [])"
proof -
  have h1: "Compile literal_regexp ''b'' = Some ''b''" by (simp add: eval_defs)
  have h2: "FindStringIndex literal_regexp ''b'' (Buffer (session ''abc'' [])) = Some (1, 2)"
    by (simp add: eval_defs)
  have h3: "(0 :: nat) < 2" by simp
  have h4: "2 \<le> length (Buffer (session ''abc'' []))" by (simp add: eval_defs)
  have h5: "0 < timeoutMs 1" by (simp add: eval_defs)
  from ReadUntilRegex_match [OF h1 h2 h3 h4 h5] h1 h2 h4 h5 show ?thesis
    by (simp add: session_def)
qed

text \<open>
  Without the two conditions the statement fails. With a timeout of 0 the loop is never
  entered: the whole buffer comes back with \<open>ErrNoMatch\<close> although the pattern \<open>b\<close>
  matches it. With the empty pattern, whose first match ends at offset 0, the whole
  buffer comes back instead of the empty prefix.
\<close>

theorem ReadUntilRegex_match_counterexample:
  "Compile literal_regexp ''b'' = Some ''b''
   \<and> FindStringIndex literal_regexp ''b'' ''abc'' = Some (1, 2)
   \<and> ReadUntilRegex literal_regexp ''b'' 0 (session ''abc'' [])
       = Inr ((''abc'', Some ErrNoMatch), session [] [])
   \<and> ReadUntilRegex literal_regexp ''b'' 0 (session ''abc'' [])
       \<noteq> Inr ((take 2 ''abc'', None), session (drop 2 ''abc'') [])
   \<and> Compile literal_regexp [] = Some []
   \<and> FindStringIndex literal_regexp [] ''abc'' = Some (0, 0)
   \<and> ReadUntilRegex literal_regexp [] 1 (session ''abc'' [])
       = Inr ((''abc'', None), session [] [])
   \<and> ReadUntilRegex literal_regexp [] 1 (session ''abc'' [])
       \<noteq> Inr ((take 0 ''abc'', None), session (drop 0 ''abc'') [])"
  by (simp add: ReadUntilRegex_def ReadUntilRegex_loop.simps eval_defs)

text \<open>
  C10. When the prefix computed for a match is empty, as for the empty target of
  \<open>ReadUntil\<close> or a first match of \<open>ReadUntilRegex\<close> that ends at offset 0, the call
  returns the whole buffer, empties it, and reports no error.
\<close>

theorem empty_prefix_returns_whole_buffer:
  "(0 < timeoutMs timeout \<and> Contains (Buffer s) str
      \<and> take (nat (Index (Buffer s) str + int (length str))) (Buffer s) = [] \<longrightarrow>
      ReadUntil str timeout s = ((Buffer s, None), s\<lparr>Buffer := []\<rparr>))
   \<and> (0 < timeoutMs timeout \<and> Compile E regexStr = Some cmpRe
      \<and> FindStringIndex E cmpRe (Buffer s) = Some (start, matchEnd)
      \<and> matchEnd \<le> length (Buffer s) \<and> take matchEnd (Buffer s) = [] \<longrightarrow>
      ReadUntilRegex E regexStr timeout s = Inr ((Buffer s, None), s\<lparr>Buffer := []\<rparr>))"
proof (intro conjI impI)
  assume a: "0 < timeoutMs timeout \<and> Contains (Buffer s) str
      \<and> take (nat (Index (Buffer s) str + int (length str))) (Buffer s) = []"
  let ?i = "Index (Buffer s) str"
  from a have live: "getTimestamp s - getTimestamp s < timeoutMs timeout"
    and c: "Contains (Buffer s) str"
    and e: "take (nat (?i + int (length str))) (Buffer s) = []" by simp_all
  from c have nn: "0 \<le> ?i" by (simp add: Contains_def)
  from e have "nat (?i + int (length str)) = 0 \<or> Buffer s = []" by simp
  with nn have "nat ?i = 0 \<or> Buffer s = []" by auto
  then have d: "drop (nat ?i) (Buffer s) = Buffer s" by auto
  from ReadUntil_loop_match [OF live c] e d
  have "ReadUntil_loop str (getTimestamp s) (timeoutMs timeout) s = (([], True), s)"
    by simp
  then show "ReadUntil str timeout s = ((Buffer s, None), s\<lparr>Buffer := []\<rparr>)"
    by (simp add: ReadUntil_def finish_def)
next
  assume a: "0 < timeoutMs timeout \<and> Compile E regexStr = Some cmpRe
      \<and> FindStringIndex E cmpRe (Buffer s) = Some (start, matchEnd)
      \<and> matchEnd \<le> length (Buffer s) \<and> take matchEnd (Buffer s) = []"
  then have live: "getTimestamp s - getTimestamp s < timeoutMs timeout"
    and c: "Compile E regexStr = Some cmpRe"
    and f: "FindStringIndex E cmpRe (Buffer s) = Some (start, matchEnd)"
    and b: "matchEnd \<le> length (Buffer s)"
    and e: "take matchEnd (Buffer s) = []" by simp_all
  from e have "matchEnd = 0 \<or> Buffer s = []" by simp
  then have d: "drop matchEnd (Buffer s) = Buffer s" by auto
  from ReadUntilRegex_loop_match [OF live f] b e d
  have "ReadUntilRegex_loop E cmpRe (getTimestamp s) (timeoutMs timeout) s
          = Inr (([], True), s)"
    by (simp add: cut_def)
  with c show "ReadUntilRegex E regexStr timeout s = Inr ((Buffer s, None), s\<lparr>Buffer := []\<rparr>)"
    by (simp add: ReadUntilRegex_def finish_def)
qed

theorem empty_prefix_returns_whole_buffer_witness:
  "0 < timeoutMs 1 \<and> Contains (Buffer (session ''abc'' [])) []
   \<and> take (nat (Index (Buffer (session ''abc'' [])) [] + int (length ''''))) (Buffer (session ''abc'' [])) = []
   \<and> ReadUntil [] 1 (session ''abc'' []) = ((''abc'', None), session [] [])
   \<and> Compile literal_regexp [] = Some []
   \<and> FindStringIndex literal_regexp [] (Buffer (session ''abc'' [])) = Some (0, 0)
   \<and> ReadUntilRegex literal_regexp [] 1 (session ''abc'' []) = Inr ((''abc'', None), session [] [])"
proof -
  let ?s = "session ''abc'' []"
  have h1: "0 < timeoutMs 1" by (simp add: eval_defs)
  have h2: "Contains (Buffer ?s) []" by (simp add: eval_defs)
  have h3: "take (nat (Index (Buffer ?s) [] + int (length ''''))) (Buffer ?s) = []"
    by (simp add: eval_defs)
  have h4: "Compile literal_regexp [] = Some []" by (simp add: eval_defs)
  have h5: "FindStringIndex literal_regexp [] (Buffer ?s) = Some (0, 0)" by (simp add: eval_defs)
  have h6: "0 \<le> length (Buffer ?s)" "take 0 (Buffer ?s) = []" by simp_all
  from empty_prefix_returns_whole_buffer [of 1 ?s "[]" literal_regexp "[]" "[]" 0 0]
    h1 h2 h3 h4 h5 h6
  show ?thesis by (simp add: session_def)
qed

text \<open>
  C6. For a pattern that does not compile, \<open>ReadUntilRegex\<close> returns the empty string
  and the error at once: the buffer, the channel and the clock are what they were.
\<close>

theorem ReadUntilRegex_invalid_pattern:
  "Compile E regexStr = None \<Longrightarrow>
     ReadUntilRegex E regexStr timeout s = Inr (([], Some (ErrRegexpSyntax regexStr)), s)"
  by (simp add: ReadUntilRegex_def)

theorem ReadUntilRegex_invalid_pattern_witness:
  "Compile literal_regexp ''('' = None
   \<and> ReadUntilRegex literal_regexp ''('' 5 (session ''abc'' [Some ''d''])
       = Inr (([], Some (ErrRegexpSyntax ''('')), session ''abc'' [Some ''d''])"
proof -
  have h: "Compile literal_regexp ''('' = None" by (simp add: eval_defs)
  from ReadUntilRegex_invalid_pattern [OF h] h show ?thesis by simp
qed

subsection \<open>Leaving a poll loop without a match\<close>

text \<open>
  A loop that ends with \<open>foundMatch\<close> false has left \<open>returnData\<close> empty, and the
  deadline has passed.
\<close>

lemma ReadUntil_loop_unmatched:
  "ReadUntil_loop str startTime tms s = ((rd, False), s1) \<Longrightarrow>
     rd = [] \<and> tms \<le> now s1 - startTime"
proof (induction str startTime tms s rule: ReadUntil_loop.induct)
  case (1 str startTime tms s)
  show ?case
  proof (cases "getTimestamp s - startTime < tms")
    case False
    with "1.prems" show ?thesis
      by (simp add: ReadUntil_loop.simps [of str startTime tms s] getTimestamp_def)
  next
    case live: True
    show ?thesis
    proof (cases "Contains (Buffer s) str")
      case True
      with live "1.prems" show ?thesis
        by (simp add: ReadUntil_loop.simps [of str startTime tms s] Let_def)
    next
      case False
      with live "1.prems" have "ReadUntil_loop str startTime tms (GetData s) = ((rd, False), s1)"
        by (simp add: ReadUntil_loop.simps [of str startTime tms s])
      with live False show ?thesis by (rule "1.IH")
    qed
  qed
qed

lemma ReadUntilRegex_loop_unmatched:
  "ReadUntilRegex_loop E cmpRe startTime tms s = Inr ((rd, False), s1) \<Longrightarrow>
     rd = [] \<and> tms \<le> now s1 - startTime"
proof (induction E cmpRe startTime tms s rule: ReadUntilRegex_loop.induct)
  case (1 E cmpRe startTime tms s)
  show ?case
  proof (cases "getTimestamp s - startTime < tms")
    case False
    with "1.prems" show ?thesis
      by (simp add: ReadUntilRegex_loop.simps [of E cmpRe startTime tms s] getTimestamp_def)
  next
    case live: True
    show ?thesis
    proof (cases "MatchString E cmpRe (Buffer s)")
      case True
      with live "1.prems" show ?thesis
        by (auto simp: ReadUntilRegex_loop.simps [of E cmpRe startTime tms s] cut_def
                 split: option.splits if_splits)
    next
      case False
      with live "1.prems"
      have "ReadUntilRegex_loop E cmpRe startTime tms (GetData s) = Inr ((rd, False), s1)"
        by (simp add: ReadUntilRegex_loop.simps [of E cmpRe startTime tms s])
      with live False show ?thesis by (rule "1.IH")
    qed
  qed
qed

lemma ReadUntilRegexList_loop_unmatched:
  "ReadUntilRegexList_loop E cmpReList startTime tms s = Inr ((rd, False), s1) \<Longrightarrow>
     rd = [] \<and> tms \<le> now s1 - startTime"
proof (induction E cmpReList startTime tms s rule: ReadUntilRegexList_loop.induct)
  case (1 E cmpReList startTime tms s)
  show ?case
  proof (cases "getTimestamp s - startTime < tms")
    case False
    with "1.prems" show ?thesis
      by (simp add: ReadUntilRegexList_loop.simps [of E cmpReList startTime tms s]
            getTimestamp_def)
  next
    case live: True
    with "1.prems" obtain returnData s' where
      sc: "scan E cmpReList (([], False), s) = Inr ((returnData, False), s')" and
      rec: "ReadUntilRegexList_loop E cmpReList startTime tms (GetData s') = Inr ((rd, False), s1)"
      by (auto simp: ReadUntilRegexList_loop.simps [of E cmpReList startTime tms s]
               split: sum.splits prod.splits if_splits)
    from live sc refl refl refl rec show ?thesis by (rule "1.IH")
  qed
qed


text \<open>
  Such a loop has only appended to the buffer: at its end the buffer holds what it held
  at the start followed by every chunk taken off the channel in between.
\<close>

lemma arrived_refl: "arrived s s"
  unfolding arrived_def by (rule exI [of _ 0]) (simp add: received_def)

lemma arrived_trans:
  assumes "arrived s s'" and "arrived s' s1"
  shows "arrived s s1"
proof -
  from assms(1) obtain j where j: "Data s' = drop j (Data s)"
    "Buffer s' = Buffer s @ received (take j (Data s))" unfolding arrived_def by blast
  from assms(2) obtain k where k: "Data s1 = drop k (Data s')"
    "Buffer s1 = Buffer s' @ received (take k (Data s'))" unfolding arrived_def by blast
  have "take (j + k) (Data s) = take j (Data s) @ take k (drop j (Data s))"
    by (rule take_add)
  then have "received (take (j + k) (Data s))
      = received (take j (Data s)) @ received (take k (drop j (Data s)))"
    by (simp add: received_def)
  with j k have "Data s1 = drop (j + k) (Data s)
      \<and> Buffer s1 = Buffer s @ received (take (j + k) (Data s))"
    by (simp add: add.commute)
  then show ?thesis unfolding arrived_def by blast
qed

lemma arrived_GetData: "arrived s (GetData s)"
proof (cases "Data s")
  case Nil
  then show ?thesis
    unfolding arrived_def by (intro exI [of _ 0]) (simp add: GetData_def received_def)
next
  case (Cons ev rest)
  then show ?thesis
    unfolding arrived_def
    by (intro exI [of _ 1]) (simp add: GetData_def received_def split: option.splits)
qed

lemma ReadUntil_loop_arrived:
  "ReadUntil_loop str startTime tms s = ((rd, False), s1) \<Longrightarrow> arrived s s1"
proof (induction str startTime tms s rule: ReadUntil_loop.induct)
  case (1 str startTime tms s)
  show ?case
  proof (cases "getTimestamp s - startTime < tms")
    case False
    with "1.prems" have "s1 = s"
      by (simp add: ReadUntil_loop.simps [of str startTime tms s])
    then show ?thesis by (simp add: arrived_refl)
  next
    case live: True
    show ?thesis
    proof (cases "Contains (Buffer s) str")
      case True
      with live "1.prems" show ?thesis
        by (simp add: ReadUntil_loop.simps [of str startTime tms s] Let_def)
    next
      case False
      with live "1.prems" have "ReadUntil_loop str startTime tms (GetData s) = ((rd, False), s1)"
        by (simp add: ReadUntil_loop.simps [of str startTime tms s])
      with live False have "arrived (GetData s) s1" by (rule "1.IH")
      with arrived_GetData show ?thesis by (rule arrived_trans)
    qed
  qed
qed

lemma ReadUntilRegex_loop_arrived:
  "ReadUntilRegex_loop E cmpRe startTime tms s = Inr ((rd, False), s1) \<Longrightarrow> arrived s s1"
proof (induction E cmpRe startTime tms s rule: ReadUntilRegex_loop.induct)
  case (1 E cmpRe startTime tms s)
  show ?case
  proof (cases "getTimestamp s - startTime < tms")
    case False
    with "1.prems" have "s1 = s"
      by (simp add: ReadUntilRegex_loop.simps [of E cmpRe startTime tms s])
    then show ?thesis by (simp add: arrived_refl)
  next
    case live: True
    show ?thesis
    proof (cases "MatchString E cmpRe (Buffer s)")
      case True
      with live "1.prems" show ?thesis
        by (auto simp: ReadUntilRegex_loop.simps [of E cmpRe startTime tms s] cut_def
                 split: option.splits if_splits)
    next
      case False
      with live "1.prems"
      have "ReadUntilRegex_loop E cmpRe startTime tms (GetData s) = Inr ((rd, False), s1)"
        by (simp add: ReadUntilRegex_loop.simps [of E cmpRe startTime tms s])
      with live False have "arrived (GetData s) s1" by (rule "1.IH")
      with arrived_GetData show ?thesis by (rule arrived_trans)
    qed
  qed
qed

lemma scan_found:
  "scan E cmpReList ((rd, True), s) = Inr ((rd', found), s') \<Longrightarrow> found"
proof (induction cmpReList arbitrary: rd s)
  case Nil
  then show ?case by simp
next
  case (Cons c cs)
  show ?case
  proof (cases c)
    case None
    with Cons.prems show ?thesis by simp
  next
    case (Some re)
    show ?thesis
    proof (cases "MatchString E re (Buffer s)")
      case False
      with Some Cons.prems have "scan E cs ((rd, True), s) = Inr ((rd', found), s')" by simp
      then show ?thesis by (rule Cons.IH)
    next
      case True
      with Some Cons.prems obtain start endRead rd1 f1 s1 where
        c: "cut endRead s = Inr ((rd1, f1), s1)"
        and r: "scan E cs ((rd1, f1), s1) = Inr ((rd', found), s')"
        by (auto split: option.splits sum.splits)
      from c have "f1" by (auto simp: cut_def split: if_splits)
      with r show ?thesis using Cons.IH by simp
    qed
  qed
qed

lemma scan_unmatched:
  "scan E cmpReList ((rd, False), s) = Inr ((rd', False), s') \<Longrightarrow> s' = s \<and> rd' = rd"
proof (induction cmpReList)
  case Nil
  then show ?case by simp
next
  case (Cons c cs)
  show ?case
  proof (cases c)
    case None
    with Cons.prems show ?thesis by simp
  next
    case (Some re)
    show ?thesis
    proof (cases "MatchString E re (Buffer s)")
      case False
      with Some Cons.prems have "scan E cs ((rd, False), s) = Inr ((rd', False), s')" by simp
      then show ?thesis by (rule Cons.IH)
    next
      case True
      with Some Cons.prems obtain start endRead rd1 f1 s1 where
        c: "cut endRead s = Inr ((rd1, f1), s1)"
        and r: "scan E cs ((rd1, f1), s1) = Inr ((rd', False), s')"
        by (auto split: option.splits sum.splits)
      from c have "f1" by (auto simp: cut_def split: if_splits)
      with r have False using scan_found [of E cs rd1 s1 rd' False s'] by simp
      then show ?thesis ..
    qed
  qed
qed

lemma ReadUntilRegexList_loop_arrived:
  "ReadUntilRegexList_loop E cmpReList startTime tms s = Inr ((rd, False), s1) \<Longrightarrow>
     arrived s s1"
proof (induction E cmpReList startTime tms s rule: ReadUntilRegexList_loop.induct)
  case (1 E cmpReList startTime tms s)
  show ?case
  proof (cases "getTimestamp s - startTime < tms")
    case False
    with "1.prems" have "s1 = s"
      by (simp add: ReadUntilRegexList_loop.simps [of E cmpReList startTime tms s])
    then show ?thesis by (simp add: arrived_refl)
  next
    case live: True
    with "1.prems" obtain returnData s' where
      sc: "scan E cmpReList (([], False), s) = Inr ((returnData, False), s')" and
      rec: "ReadUntilRegexList_loop E cmpReList startTime tms (GetData s') = Inr ((rd, False), s1)"
      by (auto simp: ReadUntilRegexList_loop.simps [of E cmpReList startTime tms s]
               split: sum.splits prod.splits if_splits)
    from live sc refl refl refl rec have "arrived (GetData s') s1" by (rule "1.IH")
    moreover from scan_unmatched [OF sc] have "s' = s" by simp
    ultimately show ?thesis using arrived_GetData [of s] by (auto intro: arrived_trans)
  qed
qed

text \<open>
  C4. When the poll loop of \<open>ReadUntil\<close>, \<open>ReadUntilRegex\<close> or \<open>ReadUntilRegexList\<close>
  ends without a match, the deadline has expired, the call returns the whole content of
  the buffer at that moment together with \<open>ErrNoMatch\<close>, and the buffer is empty
  afterwards. That content is what the buffer held at the call followed by everything
  that arrived during it.
\<close>

theorem read_until_timeout:
  "(ReadUntil_loop str (getTimestamp s) (timeoutMs timeout) s = ((rd, False), s1) \<longrightarrow>
      ReadUntil str timeout s = ((Buffer s1, Some ErrNoMatch), s1\<lparr>Buffer := []\<rparr>)
      \<and> timeoutMs timeout \<le> now s1 - now s \<and> arrived s s1)
   \<and> (Compile E regexStr = Some cmpRe
        \<and> ReadUntilRegex_loop E cmpRe (getTimestamp s) (timeoutMs timeout) s
            = Inr ((rd, False), s1) \<longrightarrow>
      ReadUntilRegex E regexStr timeout s
        = Inr ((Buffer s1, Some ErrNoMatch), s1\<lparr>Buffer := []\<rparr>)
      \<and> timeoutMs timeout \<le> now s1 - now s \<and> arrived s s1)
   \<and> (ReadUntilRegexList_loop E (map (Compile E) regexList) (getTimestamp s)
          (timeoutMs timeout) s = Inr ((rd, False), s1) \<longrightarrow>
      ReadUntilRegexList E regexList timeout s
        = Inr ((Buffer s1, Some ErrNoMatch), s1\<lparr>Buffer := []\<rparr>)
      \<and> timeoutMs timeout \<le> now s1 - now s \<and> arrived s s1)"
proof (intro conjI impI)
  assume l: "ReadUntil_loop str (getTimestamp s) (timeoutMs timeout) s = ((rd, False), s1)"
  from ReadUntil_loop_unmatched [OF l] have e: "rd = []"
    and d: "timeoutMs timeout \<le> now s1 - now s" by (simp_all add: getTimestamp_def)
  from d show "timeoutMs timeout \<le> now s1 - now s" .
  from l show "arrived s s1" by (rule ReadUntil_loop_arrived)
  from l e show "ReadUntil str timeout s = ((Buffer s1, Some ErrNoMatch), s1\<lparr>Buffer := []\<rparr>)"
    by (simp add: ReadUntil_def finish_def)
next
  assume "Compile E regexStr = Some cmpRe
        \<and> ReadUntilRegex_loop E cmpRe (getTimestamp s) (timeoutMs timeout) s
            = Inr ((rd, False), s1)"
  then have c: "Compile E regexStr = Some cmpRe" and
    l: "ReadUntilRegex_loop E cmpRe (getTimestamp s) (timeoutMs timeout) s = Inr ((rd, False), s1)"
    by simp_all
  from ReadUntilRegex_loop_unmatched [OF l] have e: "rd = []"
    and d: "timeoutMs timeout \<le> now s1 - now s" by (simp_all add: getTimestamp_def)
  from d show "timeoutMs timeout \<le> now s1 - now s" .
  from l show "arrived s s1" by (rule ReadUntilRegex_loop_arrived)
  from c l e show "ReadUntilRegex E regexStr timeout s
        = Inr ((Buffer s1, Some ErrNoMatch), s1\<lparr>Buffer := []\<rparr>)"
    by (simp add: ReadUntilRegex_def finish_def)
next
  assume l: "ReadUntilRegexList_loop E (map (Compile E) regexList) (getTimestamp s)
          (timeoutMs timeout) s = Inr ((rd, False), s1)"
  from ReadUntilRegexList_loop_unmatched [OF l] have e: "rd = []"
    and d: "timeoutMs timeout \<le> now s1 - now s" by (simp_all add: getTimestamp_def)
  from d show "timeoutMs timeout \<le> now s1 - now s" .
  from l show "arrived s s1" by (rule ReadUntilRegexList_loop_arrived)
  from l e show "ReadUntilRegexList E regexList timeout s
        = Inr ((Buffer s1, Some ErrNoMatch), s1\<lparr>Buffer := []\<rparr>)"
    by (simp add: ReadUntilRegexList_def finish_def)
qed

theorem read_until_timeout_witness:
  "ReadUntil_loop ''x'' (getTimestamp (session ''abc'' [Some ''de'', None])) (timeoutMs 1)
      (session ''abc'' [Some ''de'', None])
     = (([], False), (session ''abcde'' [])\<lparr>now := 1000\<rparr>)
   \<and> ReadUntil ''x'' 1 (session ''abc'' [Some ''de'', None])
     = ((''abcde'', Some ErrNoMatch), (session [] [])\<lparr>now := 1000\<rparr>)
   \<and> Compile literal_regexp ''x'' = Some ''x''
   \<and> ReadUntilRegex_loop literal_regexp ''x'' (getTimestamp (session ''abc'' [Some ''de'', None]))
       (timeoutMs 1) (session ''abc'' [Some ''de'', None])
     = Inr (([], False), (session ''abcde'' [])\<lparr>now := 1000\<rparr>)
   \<and> ReadUntilRegex literal_regexp ''x'' 1 (session ''abc'' [Some ''de'', None])
     = Inr ((''abcde'', Some ErrNoMatch), (session [] [])\<lparr>now := 1000\<rparr>)
   \<and> ReadUntilRegexList_loop literal_regexp (map (Compile literal_regexp) [''x'', ''y''])
       (getTimestamp (session ''abc'' [Some ''de'', None])) (timeoutMs 1)
       (session ''abc'' [Some ''de'', None])
     = Inr (([], False), (session ''abcde'' [])\<lparr>now := 1000\<rparr>)
   \<and> ReadUntilRegexList literal_regexp [''x'', ''y''] 1 (session ''abc'' [Some ''de'', None])
     = Inr ((''abcde'', Some ErrNoMatch), (session [] [])\<lparr>now := 1000\<rparr>)"
proof -
  let ?s = "session ''abc'' [Some ''de'', None]"
  let ?s1 = "(session ''abcde'' [])\<lparr>now := 1000\<rparr>"
  have h1: "ReadUntil_loop ''x'' (getTimestamp ?s) (timeoutMs 1) ?s = (([], False), ?s1)"
    by (simp add: ReadUntil_loop.simps session_def getTimestamp_def timeoutMs_def
          Contains_def GetData_def)
  have h2: "Compile literal_regexp ''x'' = Some ''x''"
    by (simp add: literal_regexp_def metachars_def)
  have h3: "ReadUntilRegex_loop literal_regexp ''x'' (getTimestamp ?s) (timeoutMs 1) ?s
      = Inr (([], False), ?s1)"
    by (simp add: ReadUntilRegex_loop.simps session_def getTimestamp_def timeoutMs_def
          Contains_def GetData_def literal_regexp_def MatchString_def)
  have h4: "ReadUntilRegexList_loop literal_regexp (map (Compile literal_regexp) [''x'', ''y''])
      (getTimestamp ?s) (timeoutMs 1) ?s = Inr (([], False), ?s1)"
    by (simp add: ReadUntilRegexList_loop.simps session_def getTimestamp_def timeoutMs_def
          Contains_def GetData_def literal_regexp_def metachars_def MatchString_def)
  from read_until_timeout [of "''x''" ?s 1 "[]" ?s1 literal_regexp "''x''" "''x''" "[''x'', ''y'']"]
    h1 h2 h3 h4
  show ?thesis by (simp add: session_def)
qed

subsection \<open>\<open>ReadUntilRegexList\<close>: several patterns\<close>

text \<open>
  A call with two patterns that makes a pass while the first pattern matches the buffer:
  when the second pattern matches what the first match leaves, the call returns the
  prefix of that remainder up to the end of the second match, and the text consumed by
  the first match is gone; when the second pattern does not match the remainder, the
  non-empty prefix of the first match is returned.
\<close>

lemma ReadUntilRegexList_second_overrides:
  assumes "Compile E A = Some ra" and "Compile E B = Some rb"
    and "FindStringIndex E ra (Buffer s) = Some (startA, endA)"
    and "endA \<le> length (Buffer s)"
    and "FindStringIndex E rb (drop endA (Buffer s)) = Some (startB, endB)"
    and "0 < endB" and "endB \<le> length (Buffer s) - endA"
    and "0 < timeoutMs timeout"
  shows "ReadUntilRegexList E [A, B] timeout s =
           Inr ((take endB (drop endA (Buffer s)), None),
                s\<lparr>Buffer := drop (endB + endA) (Buffer s)\<rparr>)"
proof -
  from assms(6,7) have ne: "take endB (drop endA (Buffer s)) \<noteq> []" by auto
  from assms(1-5,7)
  have "scan E (map (Compile E) [A, B]) (([], False), s) =
          Inr ((take endB (drop endA (Buffer s)), True),
               s\<lparr>Buffer := drop (endB + endA) (Buffer s)\<rparr>)"
    by (simp add: MatchString_def cut_def)
  with assms(8) ne show ?thesis
    by (simp add: ReadUntilRegexList_def getTimestamp_def finish_def
          ReadUntilRegexList_loop.simps [of E _ "now s" _ s])
qed

lemma ReadUntilRegexList_first_stands:
  assumes "Compile E A = Some ra" and "Compile E B = Some rb"
    and "FindStringIndex E ra (Buffer s) = Some (startA, endA)"
    and "0 < endA" and "endA \<le> length (Buffer s)"
    and "FindStringIndex E rb (drop endA (Buffer s)) = None"
    and "0 < timeoutMs timeout"
  shows "ReadUntilRegexList E [A, B] timeout s =
           Inr ((take endA (Buffer s), None), s\<lparr>Buffer := drop endA (Buffer s)\<rparr>)"
proof -
  from assms(4,5) have ne: "take endA (Buffer s) \<noteq> []" by auto
  from assms(1-3,5,6)
  have "scan E (map (Compile E) [A, B]) (([], False), s) =
          Inr ((take endA (Buffer s), True), s\<lparr>Buffer := drop endA (Buffer s)\<rparr>)"
    by (simp add: MatchString_def cut_def)
  with assms(7) ne show ?thesis
    by (simp add: ReadUntilRegexList_def getTimestamp_def finish_def
          ReadUntilRegexList_loop.simps [of E _ "now s" _ s])
qed

text \<open>
  C2. With \<open>ab\<close> in the buffer and the patterns \<open>a\<close> and \<open>b\<close>, both of which match
  it, \<open>ReadUntilRegexList\<close> returns \<open>b\<close> and leaves the buffer empty: the inner loop goes
  on after the match of \<open>a\<close>, the match of \<open>b\<close> in what is left replaces the returned
  text, and the \<open>a\<close> is lost.
\<close>

theorem ReadUntilRegexList_later_pattern_overrides:
  "map (Compile literal_regexp) [''a'', ''b''] = [Some ''a'', Some ''b'']
   \<and> FindStringIndex literal_regexp ''a'' ''ab'' = Some (0, 1)
   \<and> FindStringIndex literal_regexp ''b'' ''ab'' = Some (1, 2)
   \<and> ReadUntilRegexList literal_regexp [''a'', ''b''] 1 (session ''ab'' [])
       = Inr ((''b'', None), session [] [])"
  by (simp add: ReadUntilRegexList_def ReadUntilRegexList_loop.simps eval_defs)

text \<open>
  A pass over a list with a nil entry panics, whatever the other entries are, so a call
  that makes at least one pass with a pattern that does not compile panics.
\<close>

lemma scan_nil:
  "None \<in> set cmpReList \<Longrightarrow> \<exists>f. scan E cmpReList r = Inl f"
proof (induction cmpReList arbitrary: r)
  case Nil
  then show ?case by simp
next
  case (Cons c cs)
  obtain rf s where r: "r = (rf, s)" by (cases r)
  show ?case
  proof (cases c)
    case None
    then show ?thesis by simp
  next
    case (Some re)
    with Cons.prems have "None \<in> set cs" by simp
    then have ih: "\<And>r'. \<exists>f. scan E cs r' = Inl f" by (rule Cons.IH)
    from ih [of "(rf, s)"] ih Some r show ?thesis
      by (auto split: option.splits sum.splits)
  qed
qed

lemma ReadUntilRegexList_invalid_pattern:
  assumes "p \<in> set regexList" and "Compile E p = None" and "0 < timeoutMs timeout"
  shows "\<exists>f. ReadUntilRegexList E regexList timeout s = Inl f"
proof -
  from assms(1,2) have "None \<in> set (map (Compile E) regexList)" by force
  from scan_nil [OF this] obtain f where
    "scan E (map (Compile E) regexList) (([], False), s) = Inl f" by blast
  with assms(3) show ?thesis
    by (simp add: ReadUntilRegexList_def getTimestamp_def
          ReadUntilRegexList_loop.simps [of E "map (Compile E) regexList" "now s" _ s])
qed

text \<open>
  C3. With the pattern list \<open>(\<close>, \<open>c\<close>, of which the first does not compile, the call
  panics on a nil pointer; with the valid pattern \<open>c\<close> alone it returns \<open>abc\<close>.
\<close>

theorem ReadUntilRegexList_invalid_pattern_panics:
  "Compile literal_regexp ''('' = None
   \<and> ReadUntilRegexList literal_regexp [''('', ''c''] 1 (session ''abc'' []) = Inl NilDereference
   \<and> ReadUntilRegexList literal_regexp [''c''] 1 (session ''abc'' [])
       = Inr ((''abc'', None), session [] [])"
  by (simp add: ReadUntilRegexList_def ReadUntilRegexList_loop.simps eval_defs)

subsection \<open>Substrings and lines\<close>

text \<open>
  \<open>Index\<close> returns the offset of an occurrence, so \<open>Contains\<close> is the substring
  relation; splitting at a separator and joining with it again gives the string back.
\<close>

lemma Index_occurs:
  "0 \<le> Index s substr \<Longrightarrow>
     s = take (nat (Index s substr)) s @ substr @ drop (nat (Index s substr) + length substr) s"
proof (induction s)
  case Nil
  then show ?case by (simp split: if_splits)
next
  case (Cons c cs)
  show ?case
  proof (cases "prefix substr (c # cs)")
    case True
    then obtain r where "c # cs = substr @ r" by (auto simp: prefix_def)
    moreover from True have "Index (c # cs) substr = 0" by simp
    ultimately show ?thesis by simp
  next
    case False
    with Cons.prems have nn: "0 \<le> Index cs substr"
      by (simp add: Let_def split: if_splits)
    from Cons.IH [OF nn] False nn show ?thesis
      by (simp add: Let_def nat_add_distrib)
  qed
qed

lemma Index_first:
  "0 \<le> Index s substr \<Longrightarrow> j < nat (Index s substr) \<Longrightarrow> \<not> prefix substr (drop j s)"
proof (induction s arbitrary: j)
  case Nil
  then show ?case by (simp split: if_splits)
next
  case (Cons c cs)
  show ?case
  proof (cases "prefix substr (c # cs)")
    case True
    with Cons.prems show ?thesis by simp
  next
    case False
    with Cons.prems have nn: "0 \<le> Index cs substr"
      by (simp add: Let_def split: if_splits)
    show ?thesis
    proof (cases j)
      case 0
      with False show ?thesis by simp
    next
      case (Suc k)
      with Cons.prems False nn have "k < nat (Index cs substr)"
        by (simp add: Let_def nat_add_distrib)
      from Cons.IH [OF nn this] Suc show ?thesis by simp
    qed
  qed
qed

lemma Contains_iff_sublist: "Contains s substr \<longleftrightarrow> sublist substr s"
proof
  assume "Contains s substr"
  then have "0 \<le> Index s substr" by (simp add: Contains_def)
  from Index_occurs [OF this] show "sublist substr s"
    unfolding sublist_def by blast
next
  assume "sublist substr s"
  then show "Contains s substr"
  proof (induction s)
    case Nil
    then show ?case by (simp add: Contains_def)
  next
    case (Cons c cs)
    then show ?case
      by (auto simp: Contains_def Let_def sublist_Cons_right)
  qed
qed

lemma Index_char:
  "Index s [c] = (if c \<in> set s then int (length (takeWhile (\<lambda>x. x \<noteq> c) s)) else - 1)"
  by (induction s) (auto simp: Let_def)

lemma Split_char:
  "Split s [c] =
     (if c \<in> set s
      then takeWhile (\<lambda>x. x \<noteq> c) s # Split (drop 1 (dropWhile (\<lambda>x. x \<noteq> c) s)) [c]
      else [s])"
proof (cases "c \<in> set s")
  case False
  then show ?thesis by (simp add: Split.simps [of s] Index_char)
next
  case True
  have t: "take (length (takeWhile (\<lambda>x. x \<noteq> c) s)) s = takeWhile (\<lambda>x. x \<noteq> c) s"
    by (simp add: takeWhile_eq_take [symmetric])
  have "drop (Suc (length (takeWhile (\<lambda>x. x \<noteq> c) s))) s
      = drop 1 (drop (length (takeWhile (\<lambda>x. x \<noteq> c) s)) s)"
    by simp
  also have "\<dots> = drop 1 (dropWhile (\<lambda>x. x \<noteq> c) s)"
    by (simp add: dropWhile_eq_drop [symmetric])
  finally have d: "drop (Suc (length (takeWhile (\<lambda>x. x \<noteq> c) s))) s
      = drop 1 (dropWhile (\<lambda>x. x \<noteq> c) s)" .
  from True t d show ?thesis
    by (simp add: Split.simps [of s] Index_char Let_def)
qed

lemma Split_not_Nil: "sep \<noteq> [] \<Longrightarrow> Split s sep \<noteq> []"
  by (simp add: Split.simps [of s sep] Let_def)

lemma Join_Cons: "ys \<noteq> [] \<Longrightarrow> Join (x # ys) sep = x @ sep @ Join ys sep"
  by (cases ys) simp_all

lemma Join_Split: "sep \<noteq> [] \<Longrightarrow> Join (Split s sep) sep = s"
proof (induction s sep rule: Split.induct)
  case (1 s sep)
  show ?case
  proof (cases "Index s sep < 0")
    case True
    with "1.prems" show ?thesis by (simp add: Split.simps [of s sep])
  next
    case False
    let ?m = "nat (Index s sep)"
    from False have nn: "0 \<le> Index s sep" by simp
    from "1.prems" False
    have "Join (Split s sep) sep = Join (take ?m s # Split (drop (?m + length sep) s) sep) sep"
      by (simp add: Split.simps [of s sep] Let_def)
    also have "\<dots> = take ?m s @ sep @ Join (Split (drop (?m + length sep) s) sep) sep"
      using "1.prems" by (simp add: Join_Cons Split_not_Nil)
    also have "\<dots> = take ?m s @ sep @ drop (?m + length sep) s"
      using "1.IH" [OF "1.prems" refl False] "1.prems" by simp
    also have "\<dots> = s" using Index_occurs [OF nn] by simp
    finally show ?thesis .
  qed
qed

lemma strip_lines:
  "Split out ''\<newline>'' = first # rest \<Longrightarrow>
     first = first_line out \<and> Join rest ''\<newline>'' = drop_first_line out"
proof -
  assume a: "Split out ''\<newline>'' = first # rest"
  show ?thesis
  proof (cases "CHR 0x0A \<in> set out")
    case False
    with a have "first = out" "rest = []"
      using Split_char [of out "CHR 0x0A"] by simp_all
    moreover from False have dw: "dropWhile (\<lambda>c. c \<noteq> CHR 0x0A) out = []"
      by (auto simp: dropWhile_eq_Nil_conv)
    have "drop_first_line out = []" unfolding drop_first_line_def dw by simp
    moreover from False have "first_line out = out"
      by (auto simp: first_line_def)
    ultimately show ?thesis by simp
  next
    case True
    with a have "first = takeWhile (\<lambda>c. c \<noteq> CHR 0x0A) out"
      "rest = Split (drop 1 (dropWhile (\<lambda>c. c \<noteq> CHR 0x0A) out)) ''\<newline>''"
      using Split_char [of out "CHR 0x0A"] by simp_all
    then show ?thesis
      using Join_Split [of "''\<newline>''" "drop 1 (dropWhile (\<lambda>c. c \<noteq> CHR 0x0A) out)"]
      by (simp add: first_line_def drop_first_line_def)
  qed
qed

lemma SendCommand_error_output:
  "SendCommand E dial command a = Inr ((output, err), a1) \<Longrightarrow> err \<noteq> None \<Longrightarrow> output = []"
  by (auto simp: SendCommand_def split: sum.splits prod.splits if_splits)

text \<open>
  C8. \<open>SendCommandStripCommand\<close> returns what \<open>SendCommand\<close> returns, with the first
  line removed from the output when that line contains the command text, and with the
  output unchanged when it does not.
\<close>

theorem SendCommandStripCommand_first_line:
  "SendCommandStripCommand E dial command a =
     (case SendCommand E dial command a of
        Inl f \<Rightarrow> Inl f
      | Inr ((output, err), a1) \<Rightarrow>
          Inr ((if sublist command (first_line output) then drop_first_line output else output,
                err), a1))"
proof (cases "SendCommand E dial command a")
  case (Inl f)
  then show ?thesis by (simp add: SendCommandStripCommand_def)
next
  case (Inr r)
  obtain out err a1 where r: "r = ((out, err), a1)" by (metis surj_pair)
  show ?thesis
  proof (cases err)
    case (Some e)
    with Inr r have "out = []" using SendCommand_error_output [of E dial command a] by simp
    with Inr r Some show ?thesis
      by (simp add: SendCommandStripCommand_def first_line_def drop_first_line_def)
  next
    case None
    obtain first rest where sp: "Split out ''\<newline>'' = first # rest"
      using Split_not_Nil [of "''\<newline>''" out] by (cases "Split out ''\<newline>''") auto
    from strip_lines [OF sp] Inr r None sp show ?thesis
      by (simp add: SendCommandStripCommand_def Contains_iff_sublist)
  qed
qed

theorem SendCommandStripCommand_first_line_witness:
  "SendCommand literal_regexp True ''ls'' (agent (session [] [Some ''ls\<newline>a b\<newline># '']))
     = Inr ((''ls\<newline>a b\<newline># '', None), agent ((session [] [])\<lparr>Stdin := Some ''ls\<newline>''\<rparr>))
   \<and> SendCommandStripCommand literal_regexp True ''ls'' (agent (session [] [Some ''ls\<newline>a b\<newline># '']))
     = Inr ((''a b\<newline># '', None), agent ((session [] [])\<lparr>Stdin := Some ''ls\<newline>''\<rparr>))
   \<and> SendCommandStripCommand literal_regexp True ''ls'' (agent (session [] [Some ''a b\<newline># '']))
     = Inr ((''a b\<newline># '', None), agent ((session [] [])\<lparr>Stdin := Some ''ls\<newline>''\<rparr>))"
proof -
  let ?a = "agent (session [] [Some ''ls\<newline>a b\<newline># ''])"
  let ?b = "agent (session [] [Some ''a b\<newline># ''])"
  have h1: "SendCommand literal_regexp True ''ls'' ?a
     = Inr ((''ls\<newline>a b\<newline># '', None), agent ((session [] [])\<lparr>Stdin := Some ''ls\<newline>''\<rparr>))"
    by (simp add: SendCommand_def SendCommandNoWait_def Connect_def Write_def
          ReadUntilRegex_def ReadUntilRegex_loop.simps eval_defs)
  have h2: "SendCommand literal_regexp True ''ls'' ?b
     = Inr ((''a b\<newline># '', None), agent ((session [] [])\<lparr>Stdin := Some ''ls\<newline>''\<rparr>))"
    by (simp add: SendCommand_def SendCommandNoWait_def Connect_def Write_def
          ReadUntilRegex_def ReadUntilRegex_loop.simps eval_defs)
  have l1: "sublist ''ls'' (first_line ''ls\<newline>a b\<newline># '')"
    by (simp add: first_line_def)
  have l2: "\<not> sublist ''ls'' (first_line ''a b\<newline># '')"
    by (simp add: first_line_def sublist_Cons_right prefix_Cons)
  have l3: "drop_first_line ''ls\<newline>a b\<newline># '' = ''a b\<newline># ''"
    by (simp add: drop_first_line_def)
  from SendCommandStripCommand_first_line [of literal_regexp True "''ls''" ?a]
    SendCommandStripCommand_first_line [of literal_regexp True "''ls''" ?b]
    h1 h2 l1 l2 l3
  show ?thesis by simp
qed

subsection \<open>The agent\<close>

text \<open>
  One pass over a concatenated list is a pass over its first part followed by a pass over
  its second part; \<open>Connect\<close> leaves the prompt pattern and the timeout alone.
\<close>

lemma scan_append:
  "scan E (xs @ ys) r = (case scan E xs r of Inl f \<Rightarrow> Inl f | Inr r' \<Rightarrow> scan E ys r')"
proof (induction xs arbitrary: r)
  case Nil
  show ?case by simp
next
  case (Cons c cs)
  obtain rf s where r: "r = (rf, s)" by (cases r)
  show ?case
  proof (cases c)
    case None
    then show ?thesis by simp
  next
    case (Some re)
    with r Cons.IH show ?thesis
      by (simp split: option.splits sum.splits prod.splits)
  qed
qed

lemma Connect_fields:
  "Connect E dial a = Inr (err, a1) \<Longrightarrow>
     PromptRegex a1 = PromptRegex a \<and> Timeout a1 = Timeout a"
  by (auto simp: Connect_def split: if_splits sum.splits prod.splits)

text \<open>
  C7. When the agent is connected and its pipe is open, \<open>SendCommandWaitForList\<close>
  writes the command and a newline, and then is \<open>ReadUntilRegexList\<close> on the caller's
  patterns, in their order, followed by the prompt pattern; every pass tries the caller's
  patterns first and the prompt pattern last.
\<close>

theorem SendCommandWaitForList_pattern_order:
  assumes "Connect E dial a = Inr (None, a1)" and "Stdin (Conn a1) = Some w"
  shows "SendCommandWaitForList E dial command regexList a =
           (case ReadUntilRegexList E (regexList @ [PromptRegex a]) (Timeout a)
                   ((Conn a1)\<lparr>Stdin := Some (w @ command @ ''\<newline>'')\<rparr>) of
              Inl f \<Rightarrow> Inl f
            | Inr (r, c) \<Rightarrow> Inr (r, a1\<lparr>Conn := c\<rparr>))
         \<and> scan E (map (Compile E) (regexList @ [PromptRegex a])) p =
           (case scan E (map (Compile E) regexList) p of
              Inl f \<Rightarrow> Inl f
            | Inr p' \<Rightarrow> scan E [Compile E (PromptRegex a)] p')"
proof
  from Connect_fields [OF assms(1)] have f: "PromptRegex a1 = PromptRegex a"
    "Timeout a1 = Timeout a" by simp_all
  from assms have "SendCommandNoWait E dial command a =
      Inr (None, a1\<lparr>Conn := (Conn a1)\<lparr>Stdin := Some (w @ command @ ''\<newline>'')\<rparr>\<rparr>)"
    by (simp add: SendCommandNoWait_def Write_def)
  with f show "SendCommandWaitForList E dial command regexList a =
           (case ReadUntilRegexList E (regexList @ [PromptRegex a]) (Timeout a)
                   ((Conn a1)\<lparr>Stdin := Some (w @ command @ ''\<newline>'')\<rparr>) of
              Inl f \<Rightarrow> Inl f
            | Inr (r, c) \<Rightarrow> Inr (r, a1\<lparr>Conn := c\<rparr>))"
    by (simp add: SendCommandWaitForList_def split: sum.splits prod.splits)
next
  show "scan E (map (Compile E) (regexList @ [PromptRegex a])) p =
           (case scan E (map (Compile E) regexList) p of
              Inl f \<Rightarrow> Inl f
            | Inr p' \<Rightarrow> scan E [Compile E (PromptRegex a)] p')"
    by (simp add: scan_append)
qed

theorem SendCommandWaitForList_pattern_order_witness:
  "Connect literal_regexp True (agent (session [] [Some ''Password: ''])) =
     Inr (None, agent (session [] [Some ''Password: '']))
   \<and> Stdin (Conn (agent (session [] [Some ''Password: '']))) = Some []
   \<and> SendCommandWaitForList literal_regexp True ''su'' [''assword: ''] (agent (session [] [Some ''Password: '']))
     = Inr ((''Password: '', None),
            agent ((session [] [])\<lparr>Stdin := Some ''su\<newline>''\<rparr>))"
proof -
  let ?a = "agent (session [] [Some ''Password: ''])"
  have h1: "Connect literal_regexp True ?a = Inr (None, ?a)"
    by (simp add: Connect_def agent_def)
  have h2: "Stdin (Conn ?a) = Some []" by (simp add: agent_def session_def)
  have r: "ReadUntilRegexList literal_regexp ([''assword: ''] @ [PromptRegex ?a]) (Timeout ?a)
      ((Conn ?a)\<lparr>Stdin := Some ([] @ ''su'' @ ''\<newline>'')\<rparr>)
      = Inr ((''Password: '', None), (session [] [])\<lparr>Stdin := Some ''su\<newline>''\<rparr>)"
    by (simp add: ReadUntilRegexList_def ReadUntilRegexList_loop.simps eval_defs)
  from SendCommandWaitForList_pattern_order [OF h1 h2, of "''su''" "[''assword: '']"] h1 h2 r
  show ?thesis by (simp add: agent_def)
qed

text \<open>
  C9. When \<open>SendCommandNoWait\<close> reports no error, \<open>SendCommand\<close> returns the text that
  \<open>ReadUntilRegex\<close> returned and a nil error, whatever error \<open>ReadUntilRegex\<close> reported.
\<close>

theorem SendCommand_discards_read_error:
  assumes "SendCommandNoWait E dial command a = Inr (None, a1)"
    and "ReadUntilRegex E (PromptRegex a1) (Timeout a1) (Conn a1) = Inr ((output, err), c)"
  shows "SendCommand E dial command a = Inr ((output, None), a1\<lparr>Conn := c\<rparr>)"
  using assms by (simp add: SendCommand_def)

theorem SendCommand_discards_read_error_witness:
  "SendCommandNoWait literal_regexp True ''ls'' (agent (session [] [Some ''a b'']))
     = Inr (None, agent ((session [] [Some ''a b''])\<lparr>Stdin := Some ''ls\<newline>''\<rparr>))
   \<and> ReadUntilRegex literal_regexp ''# '' 1 ((session [] [Some ''a b''])\<lparr>Stdin := Some ''ls\<newline>''\<rparr>)
     = Inr ((''a b'', Some ErrNoMatch), (session [] [])\<lparr>Stdin := Some ''ls\<newline>'', now := 1000\<rparr>)
   \<and> SendCommand literal_regexp True ''ls'' (agent (session [] [Some ''a b'']))
     = Inr ((''a b'', None), agent ((session [] [])\<lparr>Stdin := Some ''ls\<newline>'', now := 1000\<rparr>))"
proof -
  let ?a = "agent (session [] [Some ''a b''])"
  let ?a1 = "agent ((session [] [Some ''a b''])\<lparr>Stdin := Some ''ls\<newline>''\<rparr>)"
  let ?c = "(session [] [])\<lparr>Stdin := Some ''ls\<newline>'', now := 1000\<rparr>"
  have h1: "SendCommandNoWait literal_regexp True ''ls'' ?a = Inr (None, ?a1)"
    by (simp add: SendCommandNoWait_def Connect_def Write_def agent_def session_def)
  have h2: "ReadUntilRegex literal_regexp (PromptRegex ?a1) (Timeout ?a1) (Conn ?a1)
      = Inr ((''a b'', Some ErrNoMatch), ?c)"
    by (simp add: ReadUntilRegex_def ReadUntilRegex_loop.simps eval_defs)
  from SendCommand_discards_read_error [OF h1 h2] h1 h2 show ?thesis
    by (simp add: agent_def)
qed

end
